theory Spec2Isabelle
  imports
    Main
    "HOL-Library.AList"
    "HOL-Library.Multiset"
    "HOL-Library.Char_ord"
    "HOL-Library.List_Lexorder"
begin

section \<open>The host registry of pkg/haproxy/types/host.go\<close>

text \<open>
  The file host.go holds the methods of the types \<open>Hosts\<close>, \<open>Host\<close>, \<open>PathLink\<close> and
  \<open>HostTLSConfig\<close>. The struct declarations themselves live in another file of the
  package; the records below list the fields that host.go reads and writes.

  Go strings are byte sequences compared bytewise and lexicographically, which is the
  order of \<open>char list\<close> given by \<open>Char_ord\<close> and \<open>List_Lexorder\<close>.
\<close>

subsection \<open>Data model\<close>

text \<open>
  Modelled from the spec: the declaration of \<open>PathLink\<close> (hostname, path). Both fields
  are set by \<open>CreatePathLink\<close> and compared with string operators in host.go.
\<close>

record PathLink =
  hostname :: string
  path :: string

text \<open>
  Modelled from the spec: the declaration of \<open>Backend\<close>. Only the four fields that
  \<open>AddPath\<close> copies are listed; the rest of a backend belongs to the backend collaborator.
\<close>

record Backend =
  ID :: string
  Namespace :: string
  Name :: string
  Port :: string

text \<open>
  Modelled from the spec: the declaration of \<open>HostBackend\<close> (id, namespace, name, port),
  a value snapshot of a backend. Field names are those of the composite literal in
  \<open>AddPath\<close>; the zero value of each field is the empty string.
\<close>

record HostBackend =
  ID :: string
  Namespace :: string
  Name :: string
  Port :: string

text \<open>
  A Go slice is nil (\<open>None\<close>) or holds a sequence of elements, which may be empty.
  \<open>elems\<close> is what a \<open>range\<close> loop visits; \<open>append_slice\<close> is \<open>append(s, x)\<close>, whose
  result is never nil.
\<close>

type_synonym 'a slice = "'a list option"

fun elems :: "'a slice \<Rightarrow> 'a list" where
  "elems None = []"
| "elems (Some xs) = xs"

definition append_slice :: "'a slice \<Rightarrow> 'a \<Rightarrow> 'a slice" where
  "append_slice s x = Some (elems s @ [x])"

text \<open>
  Modelled from the spec: the declaration of \<open>HostPath\<close> (path, link, match, backend).
  The type \<open>MatchType\<close> is declared elsewhere and host.go only stores its values, so it
  is the type parameter \<open>'m\<close>.
\<close>

record 'm HostPath =
  Path :: string
  Link :: PathLink
  Match :: 'm
  Backend :: HostBackend

text \<open>
  Modelled from the spec: the declaration of \<open>HostTLSConfig\<close>, with the two fields
  host.go reads (\<open>CAHash\<close> in \<open>HasTLSAuth\<close>, \<open>TLSFilename\<close> in \<open>HasTLS\<close>).
\<close>

record HostTLSConfig =
  CAHash :: string
  TLSFilename :: string

text \<open>
  Modelled from the spec: the declaration of \<open>Host\<close> (hostname, paths, TLS config,
  varNamespace flag, sslPassthrough flag, back-reference to the owning registry).

  \<^item> \<open>Paths\<close> is a Go slice of pointers to \<open>HostPath\<close>. host.go never mutates or shares a
    \<open>HostPath\<close> after building it and \<open>reflect.DeepEqual\<close> compares the pointees, so an
    element is a value. Every element is a non-nil pointer: host.go appends only
    \<open>&HostPath{...}\<close>, and \<open>FindPath\<close> and \<open>AddPath\<close> dereference each element.
  \<^item> The slice itself may be nil, as it is in a new host, and \<open>reflect.DeepEqual\<close> tells
    a nil slice from a non-nil empty one: \<open>Paths\<close> is a \<open>slice\<close>, nil being \<open>None\<close>.
  \<^item> The field \<open>hosts\<close> (pointer to the owning registry) has no field here: the state
    below holds one registry, every host is created by its \<open>createHost\<close>, and
    \<open>h.hosts.sslPassthroughCount\<close> is the counter of that state.
\<close>

record 'm Host =
  Hostname :: string
  Paths :: "'m HostPath slice"
  TLS :: HostTLSConfig
  VarNamespace :: bool
  sslPassthrough :: bool

text \<open>
  A value of Go type \<open>*Host\<close> is an address into the store of host objects; nil is
  \<open>None\<close> where a pointer may be nil. Only an address below the length of the store is
  a pointer: Go has no pointer to a host that was never allocated, and the methods of
  \<open>*Host\<close> below are meant for allocated addresses.
\<close>

type_synonym ref = nat

text \<open>
  Modelled from the spec: the declaration of \<open>Hosts\<close> (items, itemsAdd, itemsDel,
  sslPassthroughCount, hasCommit).

  \<^item> \<open>objs\<close> is the store: the host objects allocated so far, addressed by position.
    The three maps hold addresses, so \<open>items\<close> and \<open>itemsAdd\<close> can share one object, as
    they do after \<open>AcquireHost\<close>.
  \<^item> A Go map is an association list with pairwise distinct keys; the order of the list
    stands for the (unspecified) iteration order of the map.
  \<^item> \<open>sslPassthroughCount\<close> is a Go \<open>int\<close>. It moves by one per call, so it cannot leave
    the 64-bit range before 2^63 hosts exist; it is an unbounded integer here.
\<close>

record 'm Hosts =
  objs :: "'m Host list"
  items :: "(string \<times> ref) list"
  itemsAdd :: "(string \<times> ref) list"
  itemsDel :: "(string \<times> ref) list"
  hasCommit :: bool
  sslPassthroughCount :: int

subsection \<open>sort.Slice\<close>

text \<open>
  \<open>sort.Slice\<close> sorts in place with the given \<open>less\<close>; it promises a sorted permutation
  and no stability. For slices of at most 12 elements Go runs insertion sort:
  \<^verbatim>\<open>for i := a + 1; i < b; i++ { for j := i; j > a && less(j, j-1); j-- { swap(j, j-1) } }\<close>
  \<open>sift\<close> is the inner loop: it takes the sorted prefix in reverse (nearest element
  first) and moves the new element left while it is less than its neighbour. On a longer
  slice Go may order differently the elements that compare equal; the general theorems
  below use of the sort only that its result is sorted and a permutation of its input.
\<close>

fun sift :: "('a \<Rightarrow> 'a \<Rightarrow> bool) \<Rightarrow> 'a \<Rightarrow> 'a list \<Rightarrow> 'a list" where
  "sift lt x [] = [x]"
| "sift lt x (y # ys) = (if lt x y then y # sift lt x ys else x # y # ys)"

definition sort_Slice :: "('a \<Rightarrow> 'a \<Rightarrow> bool) \<Rightarrow> 'a list \<Rightarrow> 'a list" where
  "sort_Slice lt xs = rev (foldl (\<lambda>acc x. sift lt x acc) [] xs)"

subsection \<open>The registry\<close>

definition CreateHosts :: "'m Hosts" where
  "CreateHosts = \<lparr>objs = [], items = [], itemsAdd = [], itemsDel = [],
     hasCommit = False, sslPassthroughCount = 0\<rparr>"

definition CreatePathLink :: "string \<Rightarrow> string \<Rightarrow> PathLink" where
  "CreatePathLink hn p = \<lparr>hostname = hn, path = p\<rparr>"

text \<open>\<open>FindHost\<close>: a missing key of a Go map reads as the zero value, the nil pointer.\<close>

definition FindHost :: "string \<Rightarrow> 'm Hosts \<Rightarrow> ref option" where
  "FindHost hn h = map_of (items h) hn"

text \<open>\<open>createHost\<close>: every field but \<open>Hostname\<close> (and \<open>hosts\<close>) has its zero value.\<close>

definition createHost :: "string \<Rightarrow> 'm Host" where
  "createHost hn = \<lparr>Hostname = hn, Paths = None,
     TLS = \<lparr>CAHash = [], TLSFilename = []\<rparr>, VarNamespace = False, sslPassthrough = False\<rparr>"

text \<open>
  \<open>AcquireHost\<close> returns the pointer and the new state. The new object is allocated at
  the end of the store.
\<close>

definition AcquireHost :: "string \<Rightarrow> 'm Hosts \<Rightarrow> ref \<times> 'm Hosts" where
  "AcquireHost hn h =
     (case FindHost hn h of
        Some host \<Rightarrow> (host, h)
      | None \<Rightarrow>
          (let host = length (objs h)
           in (host, h\<lparr>objs := objs h @ [createHost hn],
                       items := AList.update hn host (items h),
                       itemsAdd := AList.update hn host (itemsAdd h)\<rparr>)))"

definition releaseHost :: "ref \<Rightarrow> 'm Hosts \<Rightarrow> 'm Hosts" where
  "releaseHost host h =
     (if sslPassthrough (objs h ! host)
      then h\<lparr>sslPassthroughCount := sslPassthroughCount h - 1\<rparr> else h)"

text \<open>One iteration of the loop of \<open>RemoveAll\<close>.\<close>

definition RemoveAll_step :: "string \<Rightarrow> 'm Hosts \<Rightarrow> 'm Hosts" where
  "RemoveAll_step hn h =
     (case map_of (items h) hn of
        Some item \<Rightarrow>
          (releaseHost item h)\<lparr>itemsDel := AList.update hn item (itemsDel h),
                               items := AList.delete hn (items h)\<rparr>
      | None \<Rightarrow> h)"

definition RemoveAll :: "string list \<Rightarrow> 'm Hosts \<Rightarrow> 'm Hosts" where
  "RemoveAll hostnames h = fold RemoveAll_step hostnames h"

text \<open>
  \<open>reflect.DeepEqual\<close> on two \<open>*Host\<close>: equal pointers are deeply equal, otherwise the
  pointees are compared field by field. Two slices are deeply equal when both are nil,
  or both are non-nil with the same length and deeply equal elements. On values that is
  equality of the records, \<open>Paths\<close> being a \<open>slice\<close>.
\<close>

definition DeepEqual :: "ref \<Rightarrow> ref \<Rightarrow> 'm Hosts \<Rightarrow> bool" where
  "DeepEqual a b h = (a = b \<or> objs h ! a = objs h ! b)"

text \<open>
  One iteration of the loop of \<open>Shrink\<close>, for the entry \<open>(name, del)\<close> of \<open>itemsDel\<close>.
  The loop deletes only the key it is visiting, so it visits every entry that
  \<open>itemsDel\<close> had when the loop began.
\<close>

definition Shrink_step :: "string \<times> ref \<Rightarrow> 'm Hosts \<Rightarrow> 'm Hosts" where
  "Shrink_step nd h =
     (case nd of (name, del) \<Rightarrow>
        (case map_of (itemsAdd h) name of
           Some add \<Rightarrow>
             (if DeepEqual add del h
              then h\<lparr>items := AList.update name del (items h),
                     itemsAdd := AList.delete name (itemsAdd h),
                     itemsDel := AList.delete name (itemsDel h)\<rparr>
              else h)
         | None \<Rightarrow> h))"

definition Shrink :: "'m Hosts \<Rightarrow> 'm Hosts" where
  "Shrink h = fold Shrink_step (itemsDel h) h"

definition Commit :: "'m Hosts \<Rightarrow> 'm Hosts" where
  "Commit h = h\<lparr>itemsAdd := [], itemsDel := [], hasCommit := True\<rparr>"

definition HasCommit :: "'m Hosts \<Rightarrow> bool" where
  "HasCommit h = hasCommit h"

definition Changed :: "'m Hosts \<Rightarrow> bool" where
  "Changed h = (length (itemsAdd h) > 0 \<or> length (itemsDel h) > 0)"

text \<open>
  \<open>BuildSortedItems\<close>. The constant \<open>DefaultHost\<close> is declared in another file and is
  the first parameter. The result is a slice of pointers, or nil (\<open>None\<close>).
\<close>

definition BuildSortedItems :: "string \<Rightarrow> 'm Hosts \<Rightarrow> ref list option" where
  "BuildSortedItems DefaultHost h =
     (let its = map snd (filter (\<lambda>(hn, item). hn \<noteq> DefaultHost) (items h));
          its = sort_Slice (\<lambda>i j. Hostname (objs h ! i) < Hostname (objs h ! j)) its
      in if length its = 0 then None else Some its)"

definition Items :: "'m Hosts \<Rightarrow> (string \<times> ref) list" where
  "Items h = items h"

definition ItemsAdd :: "'m Hosts \<Rightarrow> (string \<times> ref) list" where
  "ItemsAdd h = itemsAdd h"

definition ItemsDel :: "'m Hosts \<Rightarrow> (string \<times> ref) list" where
  "ItemsDel h = itemsDel h"

definition HasSSLPassthrough :: "'m Hosts \<Rightarrow> bool" where
  "HasSSLPassthrough h = (sslPassthroughCount h > 0)"

definition HasVarNamespace :: "'m Hosts \<Rightarrow> bool" where
  "HasVarNamespace h = list_ex (\<lambda>(hn, host). VarNamespace (objs h ! host)) (items h)"

subsection \<open>Hosts\<close>

text \<open>\<open>FindPath\<close>: the first path with the given string, or nil.\<close>

definition FindPath :: "string \<Rightarrow> 'm Host \<Rightarrow> 'm HostPath option" where
  "FindPath p host = find (\<lambda>hp. Path hp = p) (elems (Paths host))"

text \<open>
  \<open>AddPath\<close> on the host object. The backend pointer may be nil (\<open>None\<close>). The call
  \<open>backend.AddBackendPath(link)\<close> changes the backend only, which is not part of the
  registry; its code is in another file.
\<close>

definition AddPath :: "Backend option \<Rightarrow> string \<Rightarrow> 'm \<Rightarrow> 'm Host \<Rightarrow> 'm Host" where
  "AddPath backend p mt host =
     (let link = CreatePathLink (Hostname host) p;
          hback = (case backend of
                     Some b \<Rightarrow> \<lparr>HostBackend.ID = Backend.ID b,
                                HostBackend.Namespace = Backend.Namespace b,
                                HostBackend.Name = Backend.Name b,
                                HostBackend.Port = Backend.Port b\<rparr>
                   | None \<Rightarrow> \<lparr>HostBackend.ID = ''_error404'', HostBackend.Namespace = [],
                               HostBackend.Name = [], HostBackend.Port = []\<rparr>);
          ps = append_slice (Paths host) \<lparr>Path = p, Link = link, Match = mt, Backend = hback\<rparr>
      in host\<lparr>Paths := map_option (sort_Slice (\<lambda>i j. Path i > Path j)) ps\<rparr>)"

definition HasTLSAuth :: "'m Host \<Rightarrow> bool" where
  "HasTLSAuth host = (CAHash (TLS host) \<noteq> [])"

definition SSLPassthrough :: "'m Host \<Rightarrow> bool" where
  "SSLPassthrough host = sslPassthrough host"

text \<open>
  \<open>SetSSLPassthrough\<close> on the host at address \<open>host\<close>: it writes the flag of the object
  and the counter of the registry the object points back to.
\<close>

definition SetSSLPassthrough :: "bool \<Rightarrow> ref \<Rightarrow> 'm Hosts \<Rightarrow> 'm Hosts" where
  "SetSSLPassthrough v host h =
     (if sslPassthrough (objs h ! host) = v then h
      else (if v then h\<lparr>sslPassthroughCount := sslPassthroughCount h + 1\<rparr>
            else h\<lparr>sslPassthroughCount := sslPassthroughCount h - 1\<rparr>)
           \<lparr>objs := (objs h)[host := (objs h ! host)\<lparr>sslPassthrough := v\<rparr>]\<rparr>)"

text \<open>\<open>AddPath\<close> called through a pointer: the object in the store is replaced.\<close>

definition AddPath_at :: "Backend option \<Rightarrow> string \<Rightarrow> 'm \<Rightarrow> ref \<Rightarrow> 'm Hosts \<Rightarrow> 'm Hosts" where
  "AddPath_at backend p mt host h =
     h\<lparr>objs := (objs h)[host := AddPath backend p mt (objs h ! host)]\<rparr>"

subsection \<open>PathLink and HostTLSConfig\<close>

definition IsEmpty :: "PathLink \<Rightarrow> bool" where
  "IsEmpty l = (hostname l = [] \<and> path l = [])"

definition Less :: "PathLink \<Rightarrow> PathLink \<Rightarrow> bool \<Rightarrow> bool" where
  "Less l other reversePath =
     (if hostname l = hostname other
      then (if reversePath then path l > path other else path l < path other)
      else hostname l < hostname other)"

definition HasTLS :: "HostTLSConfig \<Rightarrow> bool" where
  "HasTLS c = (TLSFilename c \<noteq> [])"

subsection \<open>Sequences of calls\<close>

text \<open>
  A caller drives the registry by a sequence of calls. Calls on a host go through a
  pointer the caller holds, which may point to a host that has left \<open>items\<close> since.
\<close>

datatype 'm op =
    OpAcquireHost string
  | OpSetSSLPassthrough bool ref
  | OpAddPath "Backend option" string 'm ref
  | OpRemoveAll "string list"
  | OpShrink
  | OpCommit

fun exec :: "'m op \<Rightarrow> 'm Hosts \<Rightarrow> 'm Hosts" where
  "exec (OpAcquireHost hn) h = snd (AcquireHost hn h)"
| "exec (OpSetSSLPassthrough v host) h = SetSSLPassthrough v host h"
| "exec (OpAddPath backend p mt host) h = AddPath_at backend p mt host h"
| "exec (OpRemoveAll hostnames) h = RemoveAll hostnames h"
| "exec OpShrink h = Shrink h"
| "exec OpCommit h = Commit h"

definition run :: "'m op list \<Rightarrow> 'm Hosts \<Rightarrow> 'm Hosts" where
  "run ops h = fold exec ops h"

text \<open>
  The discipline of a caller under which the counter stays right:
  \<^item> \<open>SetSSLPassthrough\<close> is called on a host that \<open>items\<close> holds at that moment;
  \<^item> \<open>Shrink\<close> is called when every hostname that is in both \<open>itemsDel\<close> and \<open>itemsAdd\<close>
    is held in \<open>items\<close> by its added host (it was removed and then acquired again).
\<close>

fun allowed :: "'m op \<Rightarrow> 'm Hosts \<Rightarrow> bool" where
  "allowed (OpSetSSLPassthrough v host) h = (host \<in> snd ` set (items h))"
| "allowed OpShrink h =
     list_all (\<lambda>(name, del). case map_of (itemsAdd h) name of
                                None \<Rightarrow> True
                              | Some add \<Rightarrow> map_of (items h) name = Some add) (itemsDel h)"
| "allowed _ h = True"

fun allowed_run :: "'m op list \<Rightarrow> 'm Hosts \<Rightarrow> bool" where
  "allowed_run [] h = True"
| "allowed_run (c # cs) h = (allowed c h \<and> allowed_run cs (exec c h))"

text \<open>The number of hosts in \<open>items\<close> whose \<open>sslPassthrough\<close> flag is true.\<close>

definition passthroughHosts :: "'m Hosts \<Rightarrow> nat" where
  "passthroughHosts h = length (filter (\<lambda>(hn, host). sslPassthrough (objs h ! host)) (items h))"

text \<open>
  Well-formed registry states: the three association lists are Go maps (no key twice),
  every pointer they hold is allocated, and a host is filed under its own \<open>Hostname\<close>.
\<close>

definition entries_ok :: "'m Host list \<Rightarrow> (string \<times> ref) list \<Rightarrow> bool" where
  "entries_ok os al =
     (distinct (map fst al) \<and> list_all (\<lambda>(hn, host). host < length os \<and> Hostname (os ! host) = hn) al)"

definition Hosts_ok :: "'m Hosts \<Rightarrow> bool" where
  "Hosts_ok h =
     (entries_ok (objs h) (items h) \<and> entries_ok (objs h) (itemsAdd h) \<and> entries_ok (objs h) (itemsDel h))"

text \<open>The counter invariant: a well-formed state whose counter is the number of flagged hosts.\<close>

definition counted :: "'m Hosts \<Rightarrow> bool" where
  "counted h = (Hosts_ok h \<and> sslPassthroughCount h = int (passthroughHosts h))"

text \<open>
  The test of one iteration of \<open>Shrink\<close>: \<open>name\<close> is found in \<open>itemsAdd\<close> and the added
  host is deeply equal to the deleted host \<open>del\<close>.
\<close>

definition matching :: "'m Hosts \<Rightarrow> string \<Rightarrow> ref \<Rightarrow> bool" where
  "matching h name del =
     (case map_of (itemsAdd h) name of Some add \<Rightarrow> DeepEqual add del h | None \<Rightarrow> False)"

text \<open>
  The calls that leave alone what the added-set and the removed-set record for the
  hostname \<open>x\<close>: calls on hosts, \<open>AcquireHost\<close> of another hostname, and \<open>RemoveAll\<close> of
  other hostnames.
\<close>

fun keeps :: "string \<Rightarrow> 'm op \<Rightarrow> bool" where
  "keeps x (OpAcquireHost hn) = (hn \<noteq> x)"
| "keeps x (OpRemoveAll hostnames) = (x \<notin> set hostnames)"
| "keeps x (OpSetSSLPassthrough v host) = True"
| "keeps x (OpAddPath backend p mt host) = True"
| "keeps x OpShrink = False"
| "keeps x OpCommit = False"

subsection \<open>Example call sequences\<close>

text \<open>
  A first cycle builds host \<open>x\<close> (passthrough, path \<open>/\<close>) and host \<open>y\<close> (path \<open>/\<close>) and
  commits. A second cycle removes both and acquires \<open>x\<close>, then \<open>y\<close>, again:
  \<^item> \<open>x\<close> is built as it was and \<open>y\<close> gets one more path;
  \<^item> \<open>x\<close> gets one more path and \<open>y\<close> is built as it was;
  \<^item> or \<open>x\<close> alone is removed, acquired and built as it was.
\<close>

abbreviation first_cycle :: "unit op list" where
  "first_cycle \<equiv>
     [OpAcquireHost ''x'', OpSetSSLPassthrough True 0, OpAddPath None ''/'' () 0,
      OpAcquireHost ''y'', OpAddPath None ''/'' () 1, OpCommit]"

abbreviation reparse_x_same_y_more :: "unit op list" where
  "reparse_x_same_y_more \<equiv>
     [OpRemoveAll [''x'', ''y''],
      OpAcquireHost ''x'', OpSetSSLPassthrough True 2, OpAddPath None ''/'' () 2,
      OpAcquireHost ''y'', OpAddPath None ''/'' () 3, OpAddPath None ''/api'' () 3]"


abbreviation reparse_x_alone :: "unit op list" where
  "reparse_x_alone \<equiv>
     [OpRemoveAll [''x''],
      OpAcquireHost ''x'', OpSetSSLPassthrough True 2, OpAddPath None ''/'' () 2]"

section \<open>Proofs\<close>

lemmas eval_defs = run_def AcquireHost_def FindHost_def createHost_def RemoveAll_def
  RemoveAll_step_def releaseHost_def Shrink_def Shrink_step_def DeepEqual_def Commit_def
  CreateHosts_def SetSSLPassthrough_def AddPath_at_def AddPath_def CreatePathLink_def
  sort_Slice_def Changed_def HasCommit_def passthroughHosts_def Hosts_ok_def entries_ok_def
  append_slice_def

subsection \<open>Association lists\<close>

lemma update_fresh: "k \<notin> fst ` set al \<Longrightarrow> AList.update k v al = al @ [(k, v)]"
  by (induction al) auto

lemma filter_delete_count:
  "distinct (map fst al) \<Longrightarrow> map_of al k = Some v \<Longrightarrow>
   length (filter P al) = length (filter P (AList.delete k al)) + (if P (k, v) then 1 else 0)"
  by (induction al) (auto simp: delete_notin_dom image_iff dest: map_of_SomeD)

lemma filter_update_count:
  "map_of al k = Some v \<Longrightarrow> P (k, v') = P (k, v) \<Longrightarrow>
   length (filter P (AList.update k v' al)) = length (filter P al)"
  by (induction al) auto

lemma filter_store_count:
  "distinct (map snd al) \<Longrightarrow> r \<in> snd ` set al \<Longrightarrow> r < length xs \<Longrightarrow>
   length (filter (\<lambda>(n, a). f (xs[r := y] ! a)) al) + (if f (xs ! r) then 1 else 0)
   = length (filter (\<lambda>(n, a). f (xs ! a)) al) + (if f y then 1 else 0)"
proof (induction al)
  case Nil
  then show ?case by simp
next
  case (Cons e al)
  obtain n a where e: "e = (n, a)" by (cases e)
  show ?case
  proof (cases "a = r")
    case True
    with Cons.prems e have "r \<notin> snd ` set al" by (auto simp: image_iff)
    then have "filter (\<lambda>(n, a). f (xs[r := y] ! a)) al = filter (\<lambda>(n, a). f (xs ! a)) al"
      by (intro filter_cong) (auto simp: image_iff)
    with True e Cons.prems show ?thesis by simp
  next
    case False
    with Cons e show ?thesis by (auto simp: image_iff)
  qed
qed


subsection \<open>sort.Slice returns a sorted permutation\<close>

lemma set_sift: "set (sift lt x ys) = insert x (set ys)"
  by (induction ys) auto

lemma mset_sift: "mset (sift lt x ys) = add_mset x (mset ys)"
  by (induction ys) auto

lemma sorted_sift:
  assumes asym: "\<And>a b. lt a b \<Longrightarrow> \<not> lt b a"
    and negtrans: "\<And>a b c. \<not> lt a b \<Longrightarrow> \<not> lt b c \<Longrightarrow> \<not> lt a c"
  shows "sorted_wrt (\<lambda>a b. \<not> lt a b) ys \<Longrightarrow> sorted_wrt (\<lambda>a b. \<not> lt a b) (sift lt x ys)"
proof (induction ys)
  case Nil
  then show ?case by simp
next
  case (Cons y ys)
  show ?case
  proof (cases "lt x y")
    case True
    with Cons asym show ?thesis by (auto simp: set_sift)
  next
    case False
    with Cons negtrans show ?thesis by auto
  qed
qed

lemma sorted_foldl_sift:
  assumes asym: "\<And>a b. lt a b \<Longrightarrow> \<not> lt b a"
    and negtrans: "\<And>a b c. \<not> lt a b \<Longrightarrow> \<not> lt b c \<Longrightarrow> \<not> lt a c"
  shows "sorted_wrt (\<lambda>a b. \<not> lt a b) acc \<Longrightarrow>
         sorted_wrt (\<lambda>a b. \<not> lt a b) (foldl (\<lambda>acc x. sift lt x acc) acc xs)"
  by (induction xs arbitrary: acc) (simp_all add: sorted_sift[OF asym negtrans])

lemma mset_foldl_sift: "mset (foldl (\<lambda>acc x. sift lt x acc) acc xs) = mset acc + mset xs"
  by (induction xs arbitrary: acc) (simp_all add: mset_sift)

lemma sorted_sort_Slice:
  assumes asym: "\<And>a b. lt a b \<Longrightarrow> \<not> lt b a"
    and negtrans: "\<And>a b c. \<not> lt a b \<Longrightarrow> \<not> lt b c \<Longrightarrow> \<not> lt a c"
  shows "sorted_wrt (\<lambda>a b. \<not> lt b a) (sort_Slice lt xs)"
  unfolding sort_Slice_def
  using sorted_foldl_sift[OF asym negtrans, where acc = "[]" and xs = xs]
  by (simp add: sorted_wrt_rev)

lemma mset_sort_Slice: "mset (sort_Slice lt xs) = mset xs"
  by (simp add: sort_Slice_def mset_foldl_sift)

lemma sorted_desc_by_key:
  fixes k :: "'a \<Rightarrow> 'b::linorder"
  shows "sorted_wrt (\<lambda>a b. k b \<le> k a) (sort_Slice (\<lambda>i j. k i > k j) xs)"
proof -
  have "sorted_wrt (\<lambda>a b. \<not> k b > k a) (sort_Slice (\<lambda>i j. k i > k j) xs)"
    by (rule sorted_sort_Slice) auto
  then show ?thesis by (simp add: not_less)
qed

lemma sorted_asc_by_key:
  fixes k :: "'a \<Rightarrow> 'b::linorder"
  shows "sorted_wrt (\<lambda>a b. k a \<le> k b) (sort_Slice (\<lambda>i j. k i < k j) xs)"
proof -
  have "sorted_wrt (\<lambda>a b. \<not> k b < k a) (sort_Slice (\<lambda>i j. k i < k j) xs)"
    by (rule sorted_sort_Slice) auto
  then show ?thesis by (simp add: not_less)
qed

lemma strictly_desc_iff:
  fixes k :: "'a \<Rightarrow> 'b::linorder"
  shows "sorted_wrt (\<lambda>a b. k b < k a) xs \<longleftrightarrow>
         sorted_wrt (\<lambda>a b. k b \<le> k a) xs \<and> distinct (map k xs)"
proof (induction xs)
  case Nil
  then show ?case by simp
next
  case (Cons x xs)
  have "(\<forall>y\<in>set xs. k y < k x) \<longleftrightarrow> (\<forall>y\<in>set xs. k y \<le> k x) \<and> k x \<notin> k ` set xs"
    by (force simp: less_le image_iff)
  with Cons show ?case by auto
qed

lemma Paths_AddPath_not_nil: "Paths (AddPath backend p mt host) \<noteq> None"
  by (simp add: AddPath_def Let_def append_slice_def)

lemma mset_Paths_AddPath:
  "mset (elems (Paths (AddPath backend p mt host))) =
     add_mset \<lparr>Path = p, Link = CreatePathLink (Hostname host) p, Match = mt,
       Backend = (case backend of
                    Some b \<Rightarrow> \<lparr>HostBackend.ID = Backend.ID b,
                               HostBackend.Namespace = Backend.Namespace b,
                               HostBackend.Name = Backend.Name b,
                               HostBackend.Port = Backend.Port b\<rparr>
                  | None \<Rightarrow> \<lparr>HostBackend.ID = ''_error404'', HostBackend.Namespace = [],
                              HostBackend.Name = [], HostBackend.Port = []\<rparr>)\<rparr>
       (mset (elems (Paths host)))"
  by (simp add: AddPath_def Let_def append_slice_def mset_sort_Slice)

lemma Path_AddPath:
  "mset (map Path (elems (Paths (AddPath backend p mt host))))
     = add_mset p (mset (map Path (elems (Paths host))))"
  by (simp add: mset_Paths_AddPath)

subsection \<open>Path ordering\<close>

text \<open>
  C6 (amended). After every \<open>AddPath\<close> call, whatever the host was before, the path
  list of the host is sorted in descending order of path string, equal strings allowed;
  it is strictly descending exactly when the path strings of the host were pairwise
  distinct and the new path string was not among them. \<open>AddPath\<close> does not look for
  the path before adding it, so adding one path twice leaves two equal neighbours.
\<close>

theorem AddPath_sorted:
  "sorted_wrt (\<lambda>a b. Path b \<le> Path a) (elems (Paths (AddPath backend p mt host))) \<and>
   (sorted_wrt (\<lambda>a b. Path b < Path a) (elems (Paths (AddPath backend p mt host)))
      \<longleftrightarrow> distinct (map Path (elems (Paths host))) \<and> p \<notin> Path ` set (elems (Paths host)))"
proof -
  have s: "sorted_wrt (\<lambda>a b. Path b \<le> Path a) (elems (Paths (AddPath backend p mt host)))"
    by (simp add: AddPath_def Let_def append_slice_def sorted_desc_by_key)
  have "distinct (map Path (elems (Paths (AddPath backend p mt host)))) \<longleftrightarrow>
        distinct (p # map Path (elems (Paths host)))"
    by (rule mset_eq_imp_distinct_iff) (use Path_AddPath[of backend p mt host] in simp)
  with s show ?thesis by (auto simp: strictly_desc_iff)
qed

text \<open>The example of the specification: \<open>/api\<close> then \<open>/\<close> gives the order \<open>/api\<close>, \<open>/\<close>.\<close>

theorem AddPath_sorted_witness:
  "sorted_wrt (\<lambda>a b. Path b < Path a)
     (elems (Paths (AddPath None ''/'' () (AddPath None ''/api'' () (createHost ''a.com''))))) \<and>
   map Path (elems (Paths (AddPath None ''/'' () (AddPath None ''/api'' () (createHost ''a.com'')))))
     = [''/api'', ''/'']"
  using AddPath_sorted[of None "''/''" "()" "AddPath None ''/api'' () (createHost ''a.com'')"]
  by (simp add: AddPath_def createHost_def sort_Slice_def CreatePathLink_def append_slice_def)

text \<open>Adding the path \<open>/a\<close> twice to a new host: the list is not strictly descending.\<close>

theorem AddPath_twice_not_strict:
  "\<not> sorted_wrt (\<lambda>a b. Path b < Path a)
       (elems (Paths (AddPath None ''/a'' () (AddPath None ''/a'' () (createHost ''h'')))))"
  by (simp add: AddPath_def createHost_def sort_Slice_def CreatePathLink_def append_slice_def)

subsection \<open>Sorted enumeration\<close>

text \<open>
  C7. \<open>BuildSortedItems\<close> returns nil exactly when \<open>items\<close> has no key other than the
  default hostname. Otherwise it returns a non-empty slice that holds exactly the hosts
  of \<open>items\<close> filed under a key other than the default hostname, each once, in ascending
  order of their \<open>Hostname\<close>.
\<close>

theorem BuildSortedItems_result:
  "(BuildSortedItems DefaultHost h = None \<longleftrightarrow> (\<forall>(hn, host) \<in> set (items h). hn = DefaultHost)) \<and>
   (\<forall>its. BuildSortedItems DefaultHost h = Some its \<longrightarrow>
      its \<noteq> [] \<and>
      mset its = mset (map snd (filter (\<lambda>(hn, host). hn \<noteq> DefaultHost) (items h))) \<and>
      sorted_wrt (\<lambda>a b. Hostname (objs h ! a) \<le> Hostname (objs h ! b)) its)"
proof -
  let ?sel = "map snd (filter (\<lambda>(hn, host). hn \<noteq> DefaultHost) (items h))"
  let ?its = "sort_Slice (\<lambda>i j. Hostname (objs h ! i) < Hostname (objs h ! j)) ?sel"
  have b: "BuildSortedItems DefaultHost h = (if ?its = [] then None else Some ?its)"
    by (simp add: BuildSortedItems_def Let_def)
  have m: "mset ?its = mset ?sel" by (rule mset_sort_Slice)
  have e: "?its = [] \<longleftrightarrow> ?sel = []"
    using m by (metis mset_zero_iff)
  have n: "?sel = [] \<longleftrightarrow> (\<forall>(hn, host) \<in> set (items h). hn = DefaultHost)"
    by (auto simp: filter_empty_conv)
  have s: "sorted_wrt (\<lambda>a b. Hostname (objs h ! a) \<le> Hostname (objs h ! b)) ?its"
    by (rule sorted_asc_by_key)
  from b e n m s show ?thesis by auto
qed

text \<open>
  Hosts \<open>b\<close>, \<open>*\<close> and \<open>a\<close> acquired in this order, \<open>*\<close> being the default hostname: the
  result is host \<open>a\<close> then host \<open>b\<close>. With the default host alone the result is nil.
\<close>

theorem BuildSortedItems_result_witness:
  "BuildSortedItems ''*''
       (run [OpAcquireHost ''b'', OpAcquireHost ''*'', OpAcquireHost ''a''] (CreateHosts :: unit Hosts))
     = Some [2, 0] \<and>
   sorted_wrt
     (\<lambda>a b. Hostname (objs (run [OpAcquireHost ''b'', OpAcquireHost ''*'', OpAcquireHost ''a'']
                                  (CreateHosts :: unit Hosts)) ! a)
           \<le> Hostname (objs (run [OpAcquireHost ''b'', OpAcquireHost ''*'', OpAcquireHost ''a'']
                                  (CreateHosts :: unit Hosts)) ! b)) [2, 0] \<and>
   BuildSortedItems ''*'' (run [OpAcquireHost ''*''] (CreateHosts :: unit Hosts)) = None"
proof -
  have "BuildSortedItems ''*''
          (run [OpAcquireHost ''b'', OpAcquireHost ''*'', OpAcquireHost ''a''] (CreateHosts :: unit Hosts))
        = Some [2, 0]"
    by (simp add: eval_defs BuildSortedItems_def)
  moreover have
    "\<forall>(hn, host) \<in> set (items (run [OpAcquireHost ''*''] (CreateHosts :: unit Hosts))). hn = ''*''"
    by (simp add: eval_defs)
  ultimately show ?thesis
    using BuildSortedItems_result[of "''*''"
        "run [OpAcquireHost ''b'', OpAcquireHost ''*'', OpAcquireHost ''a''] (CreateHosts :: unit Hosts)"]
      BuildSortedItems_result[of "''*''" "run [OpAcquireHost ''*''] (CreateHosts :: unit Hosts)"]
    by blast
qed

subsection \<open>Misses and the nil backend\<close>

lemma RemoveAll_absent:
  "set hns \<inter> fst ` set (items h) = {} \<Longrightarrow> RemoveAll hns h = h"
  unfolding RemoveAll_def
proof (induction hns)
  case Nil
  then show ?case by simp
next
  case (Cons hn hns)
  then have "map_of (items h) hn = None" by (simp add: map_of_eq_None_iff)
  then have "RemoveAll_step hn h = h" by (simp add: RemoveAll_step_def)
  with Cons show ?case by simp
qed

text \<open>
  C9. Every operation is a total function without an error result. \<open>FindHost\<close> returns nil
  for a hostname that is not a key of \<open>items\<close>, and \<open>FindPath\<close> returns nil for a path
  string no path of the host has. The loop of \<open>RemoveAll\<close> leaves the whole registry
  state as it was at a hostname that is not a key of \<open>items\<close>, so \<open>RemoveAll\<close> of
  hostnames none of which is a key of \<open>items\<close> returns the state as it was. \<open>AddPath\<close> with a nil backend leaves
  the host with a non-nil path list that holds the former paths and exactly one more
  path, with the given path string and match type, bound to the backend whose \<open>ID\<close> is
  \<open>_error404\<close> and whose other fields are empty.
\<close>

theorem misses_are_not_errors:
  "(hn \<notin> fst ` set (items h) \<longrightarrow> FindHost hn h = None) \<and>
   (p \<notin> Path ` set (elems (Paths host)) \<longrightarrow> FindPath p host = None) \<and>
   (hn \<notin> fst ` set (items h) \<longrightarrow> RemoveAll_step hn h = h) \<and>
   (set hns \<inter> fst ` set (items h) = {} \<longrightarrow> RemoveAll hns h = h) \<and>
   Paths (AddPath None p mt host) \<noteq> None \<and>
   mset (elems (Paths (AddPath None p mt host))) =
     add_mset \<lparr>Path = p, Link = CreatePathLink (Hostname host) p, Match = mt,
                Backend = \<lparr>HostBackend.ID = ''_error404'', HostBackend.Namespace = [],
                            HostBackend.Name = [], HostBackend.Port = []\<rparr>\<rparr>
       (mset (elems (Paths host)))"
proof -
  have "FindPath p host = None" if "p \<notin> Path ` set (elems (Paths host))"
    using that by (auto simp: FindPath_def find_None_iff)
  moreover have "FindHost hn h = None" if "hn \<notin> fst ` set (items h)"
    using that by (simp add: FindHost_def map_of_eq_None_iff)
  moreover have "RemoveAll_step hn h = h" if "hn \<notin> fst ` set (items h)"
    using that by (simp add: RemoveAll_step_def map_of_eq_None_iff[THEN iffD2])
  ultimately show ?thesis
    using mset_Paths_AddPath[of None p mt host]
    by (simp add: RemoveAll_absent Paths_AddPath_not_nil)
qed

theorem misses_are_not_errors_witness:
  "FindHost ''y'' (run [OpAcquireHost ''x''] (CreateHosts :: unit Hosts)) = None \<and>
   FindPath ''/b'' (AddPath None ''/a'' () (createHost ''x'')) = None \<and>
   RemoveAll [''y''] (run [OpAcquireHost ''x''] (CreateHosts :: unit Hosts))
     = run [OpAcquireHost ''x''] (CreateHosts :: unit Hosts) \<and>
   map Backend (elems (Paths (AddPath None ''/b'' () (AddPath None ''/a'' () (createHost ''x''))))) =
     [\<lparr>HostBackend.ID = ''_error404'', HostBackend.Namespace = [], HostBackend.Name = [],
         HostBackend.Port = []\<rparr>,
      \<lparr>HostBackend.ID = ''_error404'', HostBackend.Namespace = [], HostBackend.Name = [],
         HostBackend.Port = []\<rparr>]"
  using misses_are_not_errors[of "''y''" "run [OpAcquireHost ''x''] (CreateHosts :: unit Hosts)"
      "''/b''" "AddPath None ''/a'' () (createHost ''x'')" "[''y'']" "()"]
  by (simp add: eval_defs)

subsection \<open>Commit\<close>

text \<open>
  C10. \<open>Commit\<close> leaves the \<open>items\<close> map, every host object (the whole store, so all
  paths and flags of every host) and \<open>sslPassthroughCount\<close> as they were.
\<close>

theorem Commit_frame:
  "items (Commit h) = items h \<and> objs (Commit h) = objs h \<and>
   sslPassthroughCount (Commit h) = sslPassthroughCount h"
  by (simp add: Commit_def)

text \<open>The commit flag is never reset.\<close>

lemma hasCommit_RemoveAll_step: "hasCommit (RemoveAll_step hn h) = hasCommit h"
  by (simp add: RemoveAll_step_def releaseHost_def split: option.splits)

lemma hasCommit_RemoveAll: "hasCommit (RemoveAll hns h) = hasCommit h"
  unfolding RemoveAll_def
  by (induction hns arbitrary: h) (simp_all add: hasCommit_RemoveAll_step)

lemma Shrink_step_if:
  "Shrink_step (n, d) h =
     (if matching h n d
      then h\<lparr>items := AList.update n d (items h), itemsAdd := AList.delete n (itemsAdd h),
             itemsDel := AList.delete n (itemsDel h)\<rparr>
      else h)"
  by (simp add: Shrink_step_def matching_def split: option.splits)

lemma Shrink_step_frame:
  "objs (Shrink_step nd h) = objs h"
  "sslPassthroughCount (Shrink_step nd h) = sslPassthroughCount h"
  "hasCommit (Shrink_step nd h) = hasCommit h"
  by (cases nd; simp add: Shrink_step_if)+

lemma Shrink_fold_frame:
  "objs (fold Shrink_step ps h) = objs h \<and>
   sslPassthroughCount (fold Shrink_step ps h) = sslPassthroughCount h \<and>
   hasCommit (fold Shrink_step ps h) = hasCommit h"
  by (induction ps arbitrary: h) (simp_all add: Shrink_step_frame)

lemma Shrink_objs: "objs (Shrink h) = objs h"
  by (simp add: Shrink_def Shrink_fold_frame)

lemma hasCommit_exec: "hasCommit h \<Longrightarrow> hasCommit (exec c h)"
  by (cases c)
    (simp_all add: AcquireHost_def Let_def SetSSLPassthrough_def AddPath_at_def
      hasCommit_RemoveAll Shrink_def Shrink_fold_frame Commit_def split: option.splits)

lemma hasCommit_run: "hasCommit h \<Longrightarrow> hasCommit (run cs h)"
  unfolding run_def
  by (induction cs arbitrary: h) (simp_all add: hasCommit_exec)

text \<open>
  C8. \<open>Commit\<close> sets \<open>itemsAdd\<close> and \<open>itemsDel\<close> to empty maps, so \<open>Changed\<close> is false
  right after it, and \<open>HasCommit\<close> is true after it and after any further sequence of
  calls. On a new registry \<open>HasCommit\<close> is false; after \<open>Commit\<close> it is true; after
  \<open>AcquireHost("x")\<close> and \<open>Shrink\<close>, \<open>Changed\<close> is true; after one more \<open>Commit\<close>, \<open>Changed\<close>
  is false.
\<close>

theorem Commit_closes_cycle:
  "itemsAdd (Commit h) = [] \<and> itemsDel (Commit h) = [] \<and> \<not> Changed (Commit h) \<and>
   HasCommit (run cs (Commit h)) \<and>
   \<not> HasCommit (CreateHosts :: 'm Hosts) \<and>
   HasCommit (Commit (CreateHosts :: 'm Hosts)) \<and>
   Changed (Shrink (snd (AcquireHost ''x'' (Commit (CreateHosts :: 'm Hosts))))) \<and>
   \<not> Changed (Commit (Shrink (snd (AcquireHost ''x'' (Commit (CreateHosts :: 'm Hosts))))))"
proof -
  have "hasCommit (Commit h)" by (simp add: Commit_def)
  then have "HasCommit (run cs (Commit h))"
    unfolding HasCommit_def by (rule hasCommit_run)
  moreover have "Changed (Shrink (snd (AcquireHost ''x'' (Commit (CreateHosts :: 'm Hosts)))))"
    by (simp add: eval_defs)
  ultimately show ?thesis
    by (simp add: Commit_def Changed_def HasCommit_def CreateHosts_def)
qed

subsection \<open>Well-formed states\<close>

lemma entries_ok_iff:
  "entries_ok os al \<longleftrightarrow>
     distinct (map fst al) \<and>
     (\<forall>n r. map_of al n = Some r \<longrightarrow> r < length os \<and> Hostname (os ! r) = n)"
  unfolding entries_ok_def list_all_iff
  by (auto dest: map_of_SomeD)

lemma entries_ok_Nil: "entries_ok os []"
  by (simp add: entries_ok_def)

lemma entries_ok_append: "entries_ok os al \<Longrightarrow> entries_ok (os @ [c]) al"
  unfolding entries_ok_def list_all_iff by (fastforce simp: nth_append)

lemma entries_ok_update:
  "entries_ok os al \<Longrightarrow> r < length os \<Longrightarrow> Hostname (os ! r) = n \<Longrightarrow>
   entries_ok os (AList.update n r al)"
  by (auto simp: entries_ok_iff distinct_update update_conv')

lemma entries_ok_delete: "entries_ok os al \<Longrightarrow> entries_ok os (AList.delete n al)"
  by (auto simp: entries_ok_iff distinct_delete delete_conv' split: if_splits)

lemma Hostname_store:
  "a < length os \<Longrightarrow> Hostname y = Hostname (os ! r) \<Longrightarrow>
   Hostname (os[r := y] ! a) = Hostname (os ! a)"
  by (cases "a = r") simp_all

lemma entries_ok_store:
  assumes "entries_ok os al" "Hostname y = Hostname (os ! r)"
  shows "entries_ok (os[r := y]) al"
proof -
  have "a < length (os[r := y]) \<and> Hostname (os[r := y] ! a) = n"
    if "(n, a) \<in> set al" for n a
  proof -
    from assms(1) that have "a < length os" "Hostname (os ! a) = n"
      by (auto simp: entries_ok_def list_all_iff)
    with assms(2) show ?thesis by (simp add: Hostname_store)
  qed
  with assms(1) show ?thesis
    unfolding entries_ok_def list_all_iff by blast
qed

text \<open>A host is filed under its own name, so no pointer occurs twice in one map.\<close>

lemma entries_ok_distinct_refs: "entries_ok os al \<Longrightarrow> distinct (map snd al)"
proof -
  assume ok: "entries_ok os al"
  then have d: "distinct (map fst al)" and
    hn: "\<And>n r. (n, r) \<in> set al \<Longrightarrow> Hostname (os ! r) = n"
    by (auto simp: entries_ok_def list_all_iff)
  have "inj_on snd (set al)"
  proof (rule inj_onI)
    fix p q assume pq: "p \<in> set al" "q \<in> set al" "snd p = snd q"
    obtain n r where p: "p = (n, r)" by (cases p)
    obtain n' r' where q: "q = (n', r')" by (cases q)
    from pq p q have "Hostname (os ! r) = n" "Hostname (os ! r) = n'" by (auto dest: hn)
    with pq p q show "p = q" by simp
  qed
  moreover from d have "distinct al" by (simp add: distinct_map)
  ultimately show ?thesis by (simp add: distinct_map)
qed

lemma Hosts_ok_AcquireHost:
  assumes "Hosts_ok h"
  shows "Hosts_ok (snd (AcquireHost hn h))"
proof (cases "map_of (items h) hn")
  case (Some r)
  with assms show ?thesis by (simp add: AcquireHost_def FindHost_def)
next
  case None
  let ?os = "objs h @ [createHost hn]"
  have new: "length (objs h) < length ?os" "Hostname (?os ! length (objs h)) = hn"
    by (simp_all add: createHost_def)
  from assms have "entries_ok ?os (items h)" "entries_ok ?os (itemsAdd h)"
    "entries_ok ?os (itemsDel h)"
    by (simp_all add: Hosts_ok_def entries_ok_append)
  with new have "entries_ok ?os (AList.update hn (length (objs h)) (items h))"
    "entries_ok ?os (AList.update hn (length (objs h)) (itemsAdd h))"
    "entries_ok ?os (itemsDel h)"
    by (simp_all add: entries_ok_update del: length_append)
  with None show ?thesis
    by (simp add: Hosts_ok_def AcquireHost_def FindHost_def Let_def)
qed

lemma Hosts_ok_SetSSLPassthrough: "Hosts_ok h \<Longrightarrow> Hosts_ok (SetSSLPassthrough v r h)"
  by (simp add: Hosts_ok_def SetSSLPassthrough_def entries_ok_store)

lemma Hosts_ok_Shrink_step:
  assumes "Hosts_ok h" "d < length (objs h)" "Hostname (objs h ! d) = n"
  shows "Hosts_ok (Shrink_step (n, d) h)"
  using assms by (simp add: Shrink_step_if Hosts_ok_def entries_ok_update entries_ok_delete)

lemma Hosts_ok_AddPath_at: "Hosts_ok h \<Longrightarrow> Hosts_ok (AddPath_at b p m r h)"
  by (simp add: Hosts_ok_def AddPath_at_def AddPath_def Let_def entries_ok_store)

lemma Hosts_ok_RemoveAll_step:
  assumes "Hosts_ok h"
  shows "Hosts_ok (RemoveAll_step hn h)"
proof (cases "map_of (items h) hn")
  case None
  with assms show ?thesis by (simp add: RemoveAll_step_def)
next
  case (Some r)
  with assms have "r < length (objs h)" "Hostname (objs h ! r) = hn"
    by (auto simp: Hosts_ok_def entries_ok_iff)
  with assms Some show ?thesis
    by (simp add: Hosts_ok_def RemoveAll_step_def releaseHost_def
        entries_ok_update entries_ok_delete)
qed

lemma Hosts_ok_RemoveAll: "Hosts_ok h \<Longrightarrow> Hosts_ok (RemoveAll hns h)"
  unfolding RemoveAll_def
  by (induction hns arbitrary: h) (simp_all add: Hosts_ok_RemoveAll_step)

lemma Hosts_ok_Shrink_fold:
  assumes "Hosts_ok h"
    and "\<And>n d. (n, d) \<in> set ps \<Longrightarrow> d < length (objs h) \<and> Hostname (objs h ! d) = n"
  shows "Hosts_ok (fold Shrink_step ps h)"
  using assms
proof (induction ps arbitrary: h)
  case Nil
  then show ?case by simp
next
  case (Cons e ps)
  obtain n d where e: "e = (n, d)" by (cases e)
  from Cons.prems(2)[of n d] e have "d < length (objs h)" "Hostname (objs h ! d) = n"
    by simp_all
  with Cons.prems(1) have "Hosts_ok (Shrink_step (n, d) h)" by (rule Hosts_ok_Shrink_step)
  moreover have "\<And>n' d'. (n', d') \<in> set ps \<Longrightarrow>
      d' < length (objs (Shrink_step (n, d) h)) \<and> Hostname (objs (Shrink_step (n, d) h) ! d') = n'"
    using Cons.prems(2) by (simp only: Shrink_step_frame set_simps insert_iff) blast
  ultimately have "Hosts_ok (fold Shrink_step ps (Shrink_step (n, d) h))" by (rule Cons.IH)
  with e show ?case by simp
qed

lemma Hosts_ok_Shrink:
  assumes "Hosts_ok h"
  shows "Hosts_ok (Shrink h)"
  unfolding Shrink_def
proof (rule Hosts_ok_Shrink_fold[OF assms])
  fix n d assume "(n, d) \<in> set (itemsDel h)"
  with assms show "d < length (objs h) \<and> Hostname (objs h ! d) = n"
    by (auto simp: Hosts_ok_def entries_ok_def list_all_iff)
qed

lemma Hosts_ok_Commit: "Hosts_ok h \<Longrightarrow> Hosts_ok (Commit h)"
  by (simp add: Hosts_ok_def Commit_def entries_ok_Nil)

lemma Hosts_ok_exec: "Hosts_ok h \<Longrightarrow> Hosts_ok (exec c h)"
  by (cases c)
    (simp_all add: Hosts_ok_AcquireHost Hosts_ok_SetSSLPassthrough Hosts_ok_AddPath_at
      Hosts_ok_RemoveAll Hosts_ok_Shrink Hosts_ok_Commit)

text \<open>
  Every state that a sequence of calls reaches from a new registry is well formed: in
  each map a hostname has one entry, whatever the order of the calls.
\<close>

lemma Hosts_ok_run: "Hosts_ok (run cs CreateHosts)"
proof -
  have "Hosts_ok h \<Longrightarrow> Hosts_ok (run cs h)" for h :: "'a Hosts"
    unfolding run_def by (induction cs arbitrary: h) (simp_all add: Hosts_ok_exec)
  moreover have "Hosts_ok (CreateHosts :: 'a Hosts)"
    by (simp add: Hosts_ok_def CreateHosts_def entries_ok_Nil)
  ultimately show ?thesis by blast
qed

subsection \<open>The passthrough counter\<close>

lemma counted_CreateHosts: "counted CreateHosts"
  by (simp add: counted_def Hosts_ok_def CreateHosts_def entries_ok_Nil passthroughHosts_def)

lemma passthroughHosts_AcquireHost:
  assumes "Hosts_ok h"
  shows "passthroughHosts (snd (AcquireHost hn h)) = passthroughHosts h"
proof (cases "map_of (items h) hn")
  case (Some r)
  then show ?thesis by (simp add: AcquireHost_def FindHost_def)
next
  case None
  then have fresh: "hn \<notin> fst ` set (items h)" by (simp add: map_of_eq_None_iff)
  from assms have valid: "\<And>n r. (n, r) \<in> set (items h) \<Longrightarrow> r < length (objs h)"
    by (auto simp: Hosts_ok_def entries_ok_def list_all_iff)
  have "filter (\<lambda>(n, r). sslPassthrough ((objs h @ [createHost hn]) ! r)) (items h)
      = filter (\<lambda>(n, r). sslPassthrough (objs h ! r)) (items h)"
    by (rule filter_cong) (auto simp: nth_append dest: valid)
  with None fresh show ?thesis
    by (simp add: AcquireHost_def FindHost_def Let_def passthroughHosts_def update_fresh
        createHost_def)
qed

lemma sslPassthroughCount_AcquireHost:
  "sslPassthroughCount (snd (AcquireHost hn h)) = sslPassthroughCount h"
  by (simp add: AcquireHost_def Let_def split: option.splits)

lemma counted_AcquireHost: "counted h \<Longrightarrow> counted (snd (AcquireHost hn h))"
  by (simp add: counted_def Hosts_ok_AcquireHost passthroughHosts_AcquireHost
      sslPassthroughCount_AcquireHost)

lemma counted_SetSSLPassthrough:
  assumes "counted h" "r \<in> snd ` set (items h)"
  shows "counted (SetSSLPassthrough v r h)"
proof (cases "sslPassthrough (objs h ! r) = v")
  case True
  with assms show ?thesis by (simp add: SetSSLPassthrough_def)
next
  case False
  from assms have ok: "Hosts_ok h" and c: "sslPassthroughCount h = int (passthroughHosts h)"
    by (simp_all add: counted_def)
  from ok have d: "distinct (map snd (items h))"
    by (auto simp: Hosts_ok_def intro: entries_ok_distinct_refs)
  from ok assms(2) have r: "r < length (objs h)"
    by (auto simp: Hosts_ok_def entries_ok_def list_all_iff)
  let ?y = "(objs h ! r)\<lparr>sslPassthrough := v\<rparr>"
  have eq: "length (filter (\<lambda>(n, a). sslPassthrough ((objs h)[r := ?y] ! a)) (items h))
           + (if sslPassthrough (objs h ! r) then 1 else 0)
         = length (filter (\<lambda>(n, a). sslPassthrough (objs h ! a)) (items h))
           + (if sslPassthrough ?y then 1 else 0)"
    using filter_store_count[OF d assms(2) r, of sslPassthrough ?y] .
  have cnt: "sslPassthroughCount (SetSSLPassthrough v r h)
           = int (passthroughHosts (SetSSLPassthrough v r h))"
    using False c eq by (cases v) (auto simp: SetSSLPassthrough_def passthroughHosts_def)
  with ok show ?thesis by (simp add: counted_def Hosts_ok_SetSSLPassthrough)
qed

lemma counted_AddPath_at:
  assumes "counted h"
  shows "counted (AddPath_at b p m r h)"
proof (cases "r < length (objs h)")
  case False
  then have "AddPath_at b p m r h = h" by (simp add: AddPath_at_def list_update_beyond)
  with assms show ?thesis by simp
next
  case True
  let ?y = "AddPath b p m (objs h ! r)"
  have hn: "Hostname ?y = Hostname (objs h ! r)"
    and fl: "sslPassthrough ?y = sslPassthrough (objs h ! r)"
    by (simp_all add: AddPath_def Let_def)
  have "filter (\<lambda>(n, a). sslPassthrough ((objs h)[r := ?y] ! a)) (items h)
      = filter (\<lambda>(n, a). sslPassthrough (objs h ! a)) (items h)"
    using fl True by (intro filter_cong) (auto simp: nth_list_update)
  then have "passthroughHosts (AddPath_at b p m r h) = passthroughHosts h"
    by (simp add: AddPath_at_def passthroughHosts_def)
  moreover from assms hn have "Hosts_ok (AddPath_at b p m r h)"
    by (simp add: counted_def Hosts_ok_def AddPath_at_def entries_ok_store)
  moreover have "sslPassthroughCount (AddPath_at b p m r h) = sslPassthroughCount h"
    by (simp add: AddPath_at_def)
  ultimately show ?thesis using assms by (simp add: counted_def)
qed

lemma counted_RemoveAll_step: "counted h \<Longrightarrow> counted (RemoveAll_step hn h)"
proof (cases "map_of (items h) hn")
  case None
  assume "counted h"
  with None show ?thesis by (simp add: RemoveAll_step_def)
next
  case (Some r)
  assume a: "counted h"
  then have ok: "Hosts_ok h" and c: "sslPassthroughCount h = int (passthroughHosts h)"
    by (simp_all add: counted_def)
  from ok have d: "distinct (map fst (items h))" by (simp add: Hosts_ok_def entries_ok_def)
  from ok Some have r: "r < length (objs h)" "Hostname (objs h ! r) = hn"
    by (auto simp: Hosts_ok_def entries_ok_iff)
  have ok': "Hosts_ok (RemoveAll_step hn h)"
    using ok Some r
    by (simp add: Hosts_ok_def RemoveAll_step_def releaseHost_def
        entries_ok_update entries_ok_delete)
  have "passthroughHosts h = passthroughHosts (RemoveAll_step hn h)
          + (if sslPassthrough (objs h ! r) then 1 else 0)"
    using filter_delete_count[OF d Some, of "\<lambda>(n, a). sslPassthrough (objs h ! a)"] Some
    by (auto simp: passthroughHosts_def RemoveAll_step_def releaseHost_def)
  with c Some have "sslPassthroughCount (RemoveAll_step hn h)
      = int (passthroughHosts (RemoveAll_step hn h))"
    by (auto simp: RemoveAll_step_def releaseHost_def split: if_splits)
  with ok' show ?thesis by (simp add: counted_def)
qed

lemma counted_RemoveAll: "counted h \<Longrightarrow> counted (RemoveAll hns h)"
  unfolding RemoveAll_def
  by (induction hns arbitrary: h) (auto simp: counted_RemoveAll_step)

lemma counted_Commit: "counted h \<Longrightarrow> counted (Commit h)"
  by (simp add: counted_def Hosts_ok_def Commit_def entries_ok_Nil passthroughHosts_def)

lemma Shrink_step_lookup:
  "map_of (itemsAdd (Shrink_step (n, d) h)) x =
     (if x = n \<and> matching h n d then None else map_of (itemsAdd h) x)"
  "map_of (itemsDel (Shrink_step (n, d) h)) x =
     (if x = n \<and> matching h n d then None else map_of (itemsDel h) x)"
  "map_of (items (Shrink_step (n, d) h)) x =
     (if x = n \<and> matching h n d then Some d else map_of (items h) x)"
  by (simp_all add: Shrink_step_if delete_conv' update_conv')

text \<open>
  \<open>Shrink\<close> puts the deleted host back into \<open>items\<close> and leaves the counter alone. That
  keeps the counter right when \<open>items\<close> holds the added host, which has the same flag.
\<close>

lemma passthroughHosts_Shrink_step:
  assumes "\<And>a. map_of (itemsAdd h) n = Some a \<Longrightarrow> map_of (items h) n = Some a"
  shows "passthroughHosts (Shrink_step (n, d) h) = passthroughHosts h"
proof (cases "matching h n d")
  case False
  then show ?thesis by (simp add: Shrink_step_if)
next
  case True
  then obtain a where a: "map_of (itemsAdd h) n = Some a" "DeepEqual a d h"
    by (auto simp: matching_def split: option.splits)
  with assms have "map_of (items h) n = Some a" by simp
  moreover from a(2) have "sslPassthrough (objs h ! d) = sslPassthrough (objs h ! a)"
    by (auto simp: DeepEqual_def)
  ultimately have
    "length (filter (\<lambda>(n, r). sslPassthrough (objs h ! r)) (AList.update n d (items h)))
      = length (filter (\<lambda>(n, r). sslPassthrough (objs h ! r)) (items h))"
    by (intro filter_update_count[where v = a]) simp_all
  with True show ?thesis by (simp add: Shrink_step_if passthroughHosts_def)
qed

lemma counted_Shrink_fold:
  assumes "counted h"
    and "\<And>n d. (n, d) \<in> set ps \<Longrightarrow> d < length (objs h) \<and> Hostname (objs h ! d) = n"
    and "\<And>n d a. (n, d) \<in> set ps \<Longrightarrow> map_of (itemsAdd h) n = Some a \<Longrightarrow>
           map_of (items h) n = Some a"
  shows "counted (fold Shrink_step ps h)"
  using assms
proof (induction ps arbitrary: h)
  case Nil
  then show ?case by simp
next
  case (Cons e ps)
  obtain n d where e: "e = (n, d)" by (cases e)
  let ?h = "Shrink_step (n, d) h"
  from Cons.prems(2)[of n d] e have d: "d < length (objs h)" "Hostname (objs h ! d) = n"
    by simp_all
  have g: "\<And>a. map_of (itemsAdd h) n = Some a \<Longrightarrow> map_of (items h) n = Some a"
    using Cons.prems(3)[of n d] e by simp
  have "counted ?h"
    using Cons.prems(1) d g
    by (simp add: counted_def Hosts_ok_Shrink_step passthroughHosts_Shrink_step
        Shrink_step_frame)
  moreover have "\<And>n' d'. (n', d') \<in> set ps \<Longrightarrow>
      d' < length (objs ?h) \<and> Hostname (objs ?h ! d') = n'"
    using Cons.prems(2) by (simp only: Shrink_step_frame set_simps insert_iff) blast
  moreover have "\<And>n' d' a. (n', d') \<in> set ps \<Longrightarrow> map_of (itemsAdd ?h) n' = Some a \<Longrightarrow>
      map_of (items ?h) n' = Some a"
    using Cons.prems(3) by (auto simp: Shrink_step_lookup split: if_splits)
  ultimately have "counted (fold Shrink_step ps ?h)" by (rule Cons.IH)
  with e show ?case by simp
qed

lemma counted_Shrink:
  assumes "counted h" "allowed OpShrink h"
  shows "counted (Shrink h)"
  unfolding Shrink_def
proof (rule counted_Shrink_fold[OF assms(1)])
  fix n d assume "(n, d) \<in> set (itemsDel h)"
  with assms(1) show "d < length (objs h) \<and> Hostname (objs h ! d) = n"
    by (auto simp: counted_def Hosts_ok_def entries_ok_def list_all_iff)
next
  fix n d a assume "(n, d) \<in> set (itemsDel h)" "map_of (itemsAdd h) n = Some a"
  with assms(2) show "map_of (items h) n = Some a"
    by (auto simp: list_all_iff)
qed

lemma counted_exec: "counted h \<Longrightarrow> allowed c h \<Longrightarrow> counted (exec c h)"
  by (cases c)
    (simp_all add: counted_AcquireHost counted_SetSSLPassthrough counted_AddPath_at
      counted_RemoveAll counted_Shrink counted_Commit)

lemma counted_run: "counted h \<Longrightarrow> allowed_run cs h \<Longrightarrow> counted (run cs h)"
  unfolding run_def
  by (induction cs arbitrary: h) (simp_all add: counted_exec)

lemma allowed_run_take: "allowed_run cs h \<Longrightarrow> allowed_run (take k cs) h"
proof (induction cs arbitrary: k h)
  case Nil
  then show ?case by simp
next
  case (Cons c cs)
  then show ?case by (cases k) simp_all
qed

text \<open>
  C1 (amended). Take any sequence of \<open>AcquireHost\<close>, \<open>SetSSLPassthrough\<close>, \<open>AddPath\<close>,
  \<open>RemoveAll\<close>, \<open>Shrink\<close> and \<open>Commit\<close> calls on a new registry in which every
  \<open>SetSSLPassthrough\<close> is called on a host that \<open>items\<close> holds at that moment, and every
  \<open>Shrink\<close> is called when each hostname that is in both the added-set and the
  removed-set is held in \<open>items\<close> by its added host. Then after every call of the
  sequence \<open>sslPassthroughCount\<close> is the number of hosts in \<open>items\<close> whose
  \<open>sslPassthrough\<close> flag is true.
\<close>

theorem sslPassthroughCount_tracks_items:
  assumes "allowed_run cs CreateHosts"
  shows "sslPassthroughCount (run (take k cs) CreateHosts)
           = int (passthroughHosts (run (take k cs) CreateHosts))"
proof -
  from assms have "allowed_run (take k cs) CreateHosts" by (rule allowed_run_take)
  with counted_CreateHosts have "counted (run (take k cs) CreateHosts)" by (rule counted_run)
  then show ?thesis by (simp add: counted_def)
qed

text \<open>
  Two cycles on host \<open>x\<close>: built with passthrough and committed, then removed, acquired
  again, set to passthrough again and shrunk. The counter and the number of flagged
  hosts are both 1 at the end.
\<close>

theorem sslPassthroughCount_tracks_items_witness:
  "allowed_run [OpAcquireHost ''x'', OpSetSSLPassthrough True 0, OpCommit, OpRemoveAll [''x''],
       OpAcquireHost ''x'', OpSetSSLPassthrough True 1, OpShrink] (CreateHosts :: unit Hosts) \<and>
   sslPassthroughCount (run [OpAcquireHost ''x'', OpSetSSLPassthrough True 0, OpCommit,
       OpRemoveAll [''x''], OpAcquireHost ''x'', OpSetSSLPassthrough True 1, OpShrink]
       (CreateHosts :: unit Hosts)) = 1 \<and>
   passthroughHosts (run [OpAcquireHost ''x'', OpSetSSLPassthrough True 0, OpCommit,
       OpRemoveAll [''x''], OpAcquireHost ''x'', OpSetSSLPassthrough True 1, OpShrink]
       (CreateHosts :: unit Hosts)) = 1"
  using sslPassthroughCount_tracks_items[of "[OpAcquireHost ''x'', OpSetSSLPassthrough True 0,
       OpCommit, OpRemoveAll [''x''], OpAcquireHost ''x'', OpSetSSLPassthrough True 1, OpShrink]
       :: unit op list" 7]
  by (simp add: eval_defs)

text \<open>
  A host keeps its pointer to the registry after \<open>RemoveAll\<close> has taken it out of
  \<open>items\<close>: \<open>AcquireHost("x")\<close>, \<open>RemoveAll(["x"])\<close>, then \<open>SetSSLPassthrough(true)\<close> on the
  removed host. The counter is 1 and \<open>items\<close> is empty.
\<close>

theorem sslPassthroughCount_removed_host:
  "sslPassthroughCount (run [OpAcquireHost ''x'', OpRemoveAll [''x''], OpSetSSLPassthrough True 0]
       (CreateHosts :: unit Hosts)) = 1 \<and>
   passthroughHosts (run [OpAcquireHost ''x'', OpRemoveAll [''x''], OpSetSSLPassthrough True 0]
       (CreateHosts :: unit Hosts)) = 0"
  by (simp add: eval_defs)

subsection \<open>Shrink\<close>

text \<open>
  C2 (the code at the failing input). On a new registry, \<open>AcquireHost("x")\<close> then
  \<open>RemoveAll(["x"])\<close> leaves \<open>x\<close> out of \<open>items\<close>, with the same host recorded in both
  \<open>itemsAdd\<close> and \<open>itemsDel\<close>. \<open>Shrink\<close> finds that pair deeply equal (it is one pointer),
  writes the host back into \<open>items\<close> and empties both sets: the removed hostname is in
  \<open>items\<close> again and \<open>Changed\<close> is false.
\<close>

theorem Shrink_restores_removed_host:
  "map_of (items (run [OpAcquireHost ''x'', OpRemoveAll [''x'']] (CreateHosts :: unit Hosts))) ''x''
     = None \<and>
   map_of (items (run [OpAcquireHost ''x'', OpRemoveAll [''x''], OpShrink]
       (CreateHosts :: unit Hosts))) ''x'' = Some 0 \<and>
   \<not> Changed (run [OpAcquireHost ''x'', OpRemoveAll [''x''], OpShrink] (CreateHosts :: unit Hosts))"
  by (simp add: eval_defs)

text \<open>
  The same pair with a flagged host: \<open>RemoveAll\<close> has taken the host off the counter and
  \<open>Shrink\<close> puts it back into \<open>items\<close> without counting it.
\<close>

lemma Shrink_restores_flagged_host:
  "sslPassthroughCount (run [OpAcquireHost ''x'', OpSetSSLPassthrough True 0, OpRemoveAll [''x''],
       OpShrink] (CreateHosts :: unit Hosts)) = 0 \<and>
   passthroughHosts (run [OpAcquireHost ''x'', OpSetSSLPassthrough True 0, OpRemoveAll [''x''],
       OpShrink] (CreateHosts :: unit Hosts)) = 1"
  by (simp add: eval_defs)

text \<open>The loop of \<open>Shrink\<close>, key by key: the order of the iteration does not matter.\<close>

lemma matching_Shrink_step:
  "x \<noteq> n \<Longrightarrow> matching (Shrink_step (n, d) h) x d' = matching h x d'"
  by (simp add: Shrink_step_if matching_def DeepEqual_def split: option.splits)

lemma Shrink_fold_lookup:
  assumes "distinct (map fst ps)"
  shows "map_of (itemsAdd (fold Shrink_step ps h)) x =
           (case map_of ps x of
              Some d \<Rightarrow> if matching h x d then None else map_of (itemsAdd h) x
            | None \<Rightarrow> map_of (itemsAdd h) x)"
    and "map_of (itemsDel (fold Shrink_step ps h)) x =
           (case map_of ps x of
              Some d \<Rightarrow> if matching h x d then None else map_of (itemsDel h) x
            | None \<Rightarrow> map_of (itemsDel h) x)"
    and "map_of (items (fold Shrink_step ps h)) x =
           (case map_of ps x of
              Some d \<Rightarrow> if matching h x d then Some d else map_of (items h) x
            | None \<Rightarrow> map_of (items h) x)"
  using assms
proof (induction ps arbitrary: h)
  case Nil
  { case 1 show ?case by simp }
  { case 2 show ?case by simp }
  { case 3 show ?case by simp }
next
  case (Cons e ps)
  obtain n d where e: "e = (n, d)" by (cases e)
  { case 1
    then have dist: "distinct (map fst ps)" and nin: "map_of ps n = None"
      using e by (auto simp: map_of_eq_None_iff)
    show ?case
      using Cons.IH(1)[OF dist, of "Shrink_step (n, d) h"] nin e
      by (auto simp: Shrink_step_lookup matching_Shrink_step split: option.splits) }
  { case 2
    then have dist: "distinct (map fst ps)" and nin: "map_of ps n = None"
      using e by (auto simp: map_of_eq_None_iff)
    show ?case
      using Cons.IH(2)[OF dist, of "Shrink_step (n, d) h"] nin e
      by (auto simp: Shrink_step_lookup matching_Shrink_step split: option.splits) }
  { case 3
    then have dist: "distinct (map fst ps)" and nin: "map_of ps n = None"
      using e by (auto simp: map_of_eq_None_iff)
    show ?case
      using Cons.IH(3)[OF dist, of "Shrink_step (n, d) h"] nin e
      by (auto simp: Shrink_step_lookup matching_Shrink_step split: option.splits) }
qed

lemma Shrink_lookup:
  assumes "distinct (map fst (itemsDel h))"
  shows "map_of (itemsAdd (Shrink h)) x =
           (case map_of (itemsDel h) x of
              Some d \<Rightarrow> if matching h x d then None else map_of (itemsAdd h) x
            | None \<Rightarrow> map_of (itemsAdd h) x)"
    and "map_of (itemsDel (Shrink h)) x =
           (case map_of (itemsDel h) x of
              Some d \<Rightarrow> if matching h x d then None else Some d
            | None \<Rightarrow> None)"
    and "map_of (items (Shrink h)) x =
           (case map_of (itemsDel h) x of
              Some d \<Rightarrow> if matching h x d then Some d else map_of (items h) x
            | None \<Rightarrow> map_of (items h) x)"
  using Shrink_fold_lookup[OF assms, of h x]
  by (auto simp: Shrink_def split: option.splits)

text \<open>
  What \<open>RemoveAll\<close> and \<open>AcquireHost\<close> record. \<open>RemoveAll\<close> writes the host it takes out
  of \<open>items\<close> over the entry of the removed-set, so the removed-set records for a
  hostname the host that was removed last.
\<close>

lemma RemoveAll_step_lookup:
  "map_of (items (RemoveAll_step n h)) x = (if x = n then None else map_of (items h) x)"
  "map_of (itemsDel (RemoveAll_step n h)) x =
     (if x = n then (case map_of (items h) n of Some r \<Rightarrow> Some r | None \<Rightarrow> map_of (itemsDel h) n)
      else map_of (itemsDel h) x)"
  "itemsAdd (RemoveAll_step n h) = itemsAdd h"
  "objs (RemoveAll_step n h) = objs h"
  by (simp_all add: RemoveAll_step_def releaseHost_def delete_conv' update_conv'
      split: option.splits)

lemma RemoveAll_lookup:
  "map_of (items (RemoveAll hns h)) x = (if x \<in> set hns then None else map_of (items h) x)"
  "map_of (itemsDel (RemoveAll hns h)) x =
     (if x \<in> set hns
      then (case map_of (items h) x of Some r \<Rightarrow> Some r | None \<Rightarrow> map_of (itemsDel h) x)
      else map_of (itemsDel h) x)"
  "itemsAdd (RemoveAll hns h) = itemsAdd h"
  "objs (RemoveAll hns h) = objs h"
  unfolding RemoveAll_def
  by (induction hns arbitrary: h) (simp_all add: RemoveAll_step_lookup split: option.splits)

text \<open>
  A hostname of \<open>items\<close> that is removed and acquired again: the removed-set records the
  host that was in \<open>items\<close>, the added-set and \<open>items\<close> record the new host.
\<close>

lemma reparse_records:
  assumes "map_of (items h) x = Some old" "x \<in> set hns"
    and "AcquireHost x (RemoveAll hns h) = (new, h1)"
  shows "map_of (itemsDel h1) x = Some old"
    and "map_of (itemsAdd h1) x = Some new"
    and "map_of (items h1) x = Some new"
    and "new = length (objs h)"
proof -
  have "FindHost x (RemoveAll hns h) = None"
    using assms(2) by (simp add: FindHost_def RemoveAll_lookup)
  with assms(3) have
    "new = length (objs (RemoveAll hns h))"
    "h1 = (RemoveAll hns h)\<lparr>objs := objs (RemoveAll hns h) @ [createHost x],
              items := AList.update x new (items (RemoveAll hns h)),
              itemsAdd := AList.update x new (itemsAdd (RemoveAll hns h))\<rparr>"
    by (auto simp: AcquireHost_def Let_def)
  then show "map_of (itemsDel h1) x = Some old"
    and "map_of (itemsAdd h1) x = Some new"
    and "map_of (items h1) x = Some new"
    and "new = length (objs h)"
    using assms(1,2) by (simp_all add: RemoveAll_lookup update_conv')
qed

text \<open>Later calls that do not remove or create \<open>x\<close> keep both records.\<close>

lemma records_kept_exec:
  assumes "keeps x c"
  shows "map_of (itemsAdd (exec c h)) x = map_of (itemsAdd h) x"
    and "map_of (itemsDel (exec c h)) x = map_of (itemsDel h) x"
  using assms
  by (cases c; simp add: AcquireHost_def FindHost_def Let_def update_conv' RemoveAll_lookup
        SetSSLPassthrough_def AddPath_at_def split: option.splits)+

lemma records_kept:
  assumes "list_all (keeps x) cs"
  shows "map_of (itemsAdd (run cs h)) x = map_of (itemsAdd h) x \<and>
         map_of (itemsDel (run cs h)) x = map_of (itemsDel h) x"
  using assms unfolding run_def
  by (induction cs arbitrary: h) (simp_all add: records_kept_exec)

lemma only_key:
  assumes "distinct (map fst al)" "fst ` set al \<subseteq> {x}" "map_of al x = Some v"
  shows "al = [(x, v)]"
proof (cases al)
  case Nil
  with assms(3) show ?thesis by simp
next
  case (Cons e rest)
  obtain k w where e: "e = (k, w)" by (cases e)
  from assms(2) Cons e have k: "k = x" and sub: "fst ` set rest \<subseteq> {x}" by auto
  from assms(1) Cons e k have "x \<notin> fst ` set rest" by simp
  with sub have "rest = []" by (cases rest) auto
  with assms(3) Cons e k show ?thesis by simp
qed

text \<open>
  C3. Take a well-formed registry at the call of \<open>Shrink\<close> in which the hostname \<open>x\<close> was
  removed and acquired again during the cycle: the removed-set records for \<open>x\<close> the host
  \<open>old\<close> that \<open>RemoveAll\<close> took out of \<open>items\<close>, and the added-set records for \<open>x\<close> the host
  \<open>new\<close> that \<open>AcquireHost\<close> made; any other hosts may have been removed, acquired and
  built before or after. If the content of \<open>new\<close> is the content of \<open>old\<close>, then after
  \<open>Shrink\<close>, \<open>x\<close> is neither in the added-set nor in the removed-set, \<open>items\<close> files \<open>x\<close>
  with \<open>old\<close>, whose content is that same content, and \<open>Changed\<close> is false if no other
  hostname is in the added-set or the removed-set.
\<close>

theorem Shrink_cancels_identical_reparse:
  assumes "Hosts_ok h"
    and "map_of (itemsDel h) x = Some old"
    and "map_of (itemsAdd h) x = Some new"
    and "objs h ! new = objs h ! old"
  shows "x \<notin> fst ` set (itemsAdd (Shrink h)) \<and>
         x \<notin> fst ` set (itemsDel (Shrink h)) \<and>
         map_of (items (Shrink h)) x = Some old \<and>
         objs (Shrink h) ! old = objs h ! new \<and>
         (fst ` set (itemsAdd h) \<subseteq> {x} \<and> fst ` set (itemsDel h) \<subseteq> {x}
            \<longrightarrow> \<not> Changed (Shrink h))"
proof -
  from assms(1) have dist: "distinct (map fst (itemsDel h))" "distinct (map fst (itemsAdd h))"
    by (simp_all add: Hosts_ok_def entries_ok_def)
  have m: "matching h x old"
    using assms(3,4) by (simp add: matching_def DeepEqual_def)
  have 1: "map_of (itemsAdd (Shrink h)) x = None" "map_of (itemsDel (Shrink h)) x = None"
    "map_of (items (Shrink h)) x = Some old"
    using assms(2) m by (simp_all add: Shrink_lookup[OF dist(1)])
  have 2: "\<not> Changed (Shrink h)"
    if "fst ` set (itemsAdd h) \<subseteq> {x}" "fst ` set (itemsDel h) \<subseteq> {x}"
  proof -
    from dist(2) that(1) assms(3) have "itemsAdd h = [(x, new)]" by (rule only_key)
    moreover from dist(1) that(2) assms(2) have "itemsDel h = [(x, old)]" by (rule only_key)
    ultimately show ?thesis
      using m by (simp add: Shrink_def Shrink_step_if Changed_def)
  qed
  from 1 2 assms(4) show ?thesis
    by (simp add: map_of_eq_None_iff Shrink_objs)
qed

text \<open>
  In the second cycle \<open>x\<close> is built as it was and \<open>y\<close>, acquired after it, gets one more
  path: \<open>Shrink\<close> cancels the pair of \<open>x\<close> and keeps the pair of \<open>y\<close>. When \<open>x\<close> alone is
  removed, acquired and built as it was, \<open>Changed\<close> is false after \<open>Shrink\<close>.
\<close>

theorem Shrink_cancels_identical_reparse_witness:
  "Hosts_ok (run (first_cycle @ reparse_x_same_y_more) CreateHosts) \<and>
   map_of (itemsDel (run (first_cycle @ reparse_x_same_y_more) CreateHosts)) ''x'' = Some 0 \<and>
   map_of (itemsAdd (run (first_cycle @ reparse_x_same_y_more) CreateHosts)) ''x'' = Some 2 \<and>
   objs (run (first_cycle @ reparse_x_same_y_more) CreateHosts) ! 2
     = objs (run (first_cycle @ reparse_x_same_y_more) CreateHosts) ! 0 \<and>
   itemsAdd (Shrink (run (first_cycle @ reparse_x_same_y_more) CreateHosts)) = [(''y'', 3)] \<and>
   itemsDel (Shrink (run (first_cycle @ reparse_x_same_y_more) CreateHosts)) = [(''y'', 1)] \<and>
   map_of (items (Shrink (run (first_cycle @ reparse_x_same_y_more) CreateHosts))) ''x'' = Some 0 \<and>
   itemsAdd (run (first_cycle @ reparse_x_alone) CreateHosts) = [(''x'', 2)] \<and>
   itemsDel (run (first_cycle @ reparse_x_alone) CreateHosts) = [(''x'', 0)] \<and>
   \<not> Changed (Shrink (run (first_cycle @ reparse_x_alone) CreateHosts))"
proof -
  let ?h = "run (first_cycle @ reparse_x_same_y_more) CreateHosts"
  let ?g = "run (first_cycle @ reparse_x_alone) CreateHosts"
  have 1: "Hosts_ok ?h" by (simp add: eval_defs)
  have 2: "map_of (itemsDel ?h) ''x'' = Some 0" by (simp add: eval_defs)
  have 3: "map_of (itemsAdd ?h) ''x'' = Some 2" by (simp add: eval_defs)
  have 4: "objs ?h ! 2 = objs ?h ! 0" by (simp add: eval_defs)
  have 5: "itemsAdd (Shrink ?h) = [(''y'', 3)]" "itemsDel (Shrink ?h) = [(''y'', 1)]"
    by (simp_all add: eval_defs)
  have 6: "Hosts_ok ?g" by (simp add: eval_defs)
  have 7: "itemsAdd ?g = [(''x'', 2)]" "itemsDel ?g = [(''x'', 0)]" by (simp_all add: eval_defs)
  have 8: "map_of (itemsDel ?g) ''x'' = Some 0" "map_of (itemsAdd ?g) ''x'' = Some 2"
    by (simp_all add: eval_defs)
  have 9: "objs ?g ! 2 = objs ?g ! 0" by (simp add: eval_defs)
  from Shrink_cancels_identical_reparse[OF 1 2 3 4]
    Shrink_cancels_identical_reparse[OF 6 8 9] 1 2 3 4 5 7
  show ?thesis by simp
qed



text \<open>
  A new host has a nil path list. A host with a non-nil empty path list is not deeply
  equal to it, so \<open>Shrink\<close> keeps such a pair: here the removed host \<open>0\<close> has an empty
  list and the added host \<open>1\<close> a nil one.
\<close>

lemma Shrink_keeps_nil_against_empty:
  "Shrink \<lparr>objs = [(createHost ''x'' :: unit Host)\<lparr>Paths := Some []\<rparr>, createHost ''x''],
           items = [(''x'', 1)], itemsAdd = [(''x'', 1)], itemsDel = [(''x'', 0)],
           hasCommit = True, sslPassthroughCount = 0\<rparr>
   = \<lparr>objs = [(createHost ''x'' :: unit Host)\<lparr>Paths := Some []\<rparr>, createHost ''x''],
      items = [(''x'', 1)], itemsAdd = [(''x'', 1)], itemsDel = [(''x'', 0)],
      hasCommit = True, sslPassthroughCount = 0\<rparr>"
  by (simp add: eval_defs)

text \<open>
  When \<open>x\<close> is removed twice in one cycle, the second \<open>RemoveAll\<close> overwrites the entry
  of the removed-set: \<open>old\<close> is then the host removed last (here host \<open>2\<close>, with the
  paths \<open>/api\<close> and \<open>/\<close>), not the host of the last commit (host \<open>0\<close>, with the path
  \<open>/\<close>), and \<open>Shrink\<close> compares the host acquired last with it.
\<close>

lemma second_RemoveAll_overwrites:
  "map_of (itemsDel (run (first_cycle @
      [OpRemoveAll [''x''], OpAcquireHost ''x'', OpSetSSLPassthrough True 2,
       OpAddPath None ''/'' () 2, OpAddPath None ''/api'' () 2,
       OpRemoveAll [''x''], OpAcquireHost ''x'', OpSetSSLPassthrough True 3,
       OpAddPath None ''/'' () 3, OpAddPath None ''/api'' () 3]) CreateHosts)) ''x'' = Some 2 \<and>
   map_of (itemsAdd (run (first_cycle @
      [OpRemoveAll [''x''], OpAcquireHost ''x'', OpSetSSLPassthrough True 2,
       OpAddPath None ''/'' () 2, OpAddPath None ''/api'' () 2,
       OpRemoveAll [''x''], OpAcquireHost ''x'', OpSetSSLPassthrough True 3,
       OpAddPath None ''/'' () 3, OpAddPath None ''/api'' () 3]) CreateHosts)) ''x'' = Some 3 \<and>
   map_of (items (Shrink (run (first_cycle @
      [OpRemoveAll [''x''], OpAcquireHost ''x'', OpSetSSLPassthrough True 2,
       OpAddPath None ''/'' () 2, OpAddPath None ''/api'' () 2,
       OpRemoveAll [''x''], OpAcquireHost ''x'', OpSetSSLPassthrough True 3,
       OpAddPath None ''/'' () 3, OpAddPath None ''/api'' () 3]) CreateHosts))) ''x'' = Some 2 \<and>
   \<not> Changed (Shrink (run (first_cycle @
      [OpRemoveAll [''x''], OpAcquireHost ''x'', OpSetSSLPassthrough True 2,
       OpAddPath None ''/'' () 2, OpAddPath None ''/api'' () 2,
       OpRemoveAll [''x''], OpAcquireHost ''x'', OpSetSSLPassthrough True 3,
       OpAddPath None ''/'' () 3, OpAddPath None ''/api'' () 3]) CreateHosts))"
  by (simp add: eval_defs)

subsection \<open>AcquireHost\<close>




end
